theory Spec2Isabelle
  imports Complex_Main
begin

section \<open>Numbers and colour triples\<close>

text \<open>
  The program is JavaScript; every number in it is an IEEE double. The embedding reads a
  number as a real: arithmetic is exact, \<open>Infinity\<close> is written out where the code tests
  for it (\<open>minDistance\<close> below is an option, \<open>None\<close> standing for \<open>Infinity\<close>), and
  \<open>NaN\<close> has no counterpart. RGB channels, which the code produces with
  \<open>parseInt\<close> and \<open>Math.round\<close>, are integers.
\<close>

type_synonym hsl = "real \<times> real \<times> real"
type_synonym rgb = "int \<times> int \<times> int"

definition hue :: "hsl \<Rightarrow> real" where
  "hue c = fst c"

definition saturation :: "hsl \<Rightarrow> real" where
  "saturation c = fst (snd c)"

definition lightness :: "hsl \<Rightarrow> real" where
  "lightness c = snd (snd c)"

text \<open>\<open>Math.round\<close>: the nearest integer, a half rounding up.\<close>

definition js_round :: "real \<Rightarrow> int" where
  "js_round x = \<lfloor>x + 1 / 2\<rfloor>"

text \<open>The remainder operator \<open>%\<close> of JavaScript: the quotient is truncated towards zero.\<close>

definition js_trunc :: "real \<Rightarrow> int" where
  "js_trunc x = (if 0 \<le> x then \<lfloor>x\<rfloor> else \<lceil>x\<rceil>)"

definition js_rem :: "real \<Rightarrow> real \<Rightarrow> real" where
  "js_rem x y = x - y * of_int (js_trunc (x / y))"

section \<open>color-utils.js: conversions between RGB and HSL\<close>

text \<open>
  \<open>rgbToHSL\<close>. The \<open>switch (max)\<close> tries \<open>case r\<close>, \<open>case g\<close>, \<open>case b\<close> in this
  order; \<open>max\<close> is one of the three, so the last case matches whenever it is reached.
\<close>

definition rgbToHSL :: "rgb \<Rightarrow> hsl" where
  "rgbToHSL c = (case c of (r0, g0, b0) \<Rightarrow>
     let r = real_of_int r0 / 255; g = real_of_int g0 / 255; b = real_of_int b0 / 255;
         mx = max (max r g) b;
         mn = min (min r g) b;
         l = (mx + mn) / 2
     in if mx = mn then (0 * 360, 0 * 100, l * 100)
        else
          let d = mx - mn;
              s = (if l > 0.5 then d / (2 - mx - mn) else d / (mx + mn));
              h = (if mx = r then (g - b) / d + (if g < b then 6 else 0)
                   else if mx = g then (b - r) / d + 2
                   else (r - g) / d + 4)
          in ((h / 6) * 360, s * 100, l * 100))"

definition hue2rgb :: "real \<Rightarrow> real \<Rightarrow> real \<Rightarrow> real" where
  "hue2rgb p q t0 =
     (let t1 = (if t0 < 0 then t0 + 1 else t0);
          t = (if t1 > 1 then t1 - 1 else t1)
      in if t < 1 / 6 then p + (q - p) * 6 * t
         else if t < 1 / 2 then q
         else if t < 2 / 3 then p + (q - p) * (2 / 3 - t) * 6
         else p)"

definition hslToRgb :: "hsl \<Rightarrow> rgb" where
  "hslToRgb c = (case c of (h0, s0, l0) \<Rightarrow>
     let h = h0 / 360; s = s0 / 100; l = l0 / 100;
         (r, g, b) =
           (if s = 0 then (l, l, l)
            else
              let q = (if l < 0.5 then l * (1 + s) else l + s - l * s);
                  p = 2 * l - q
              in (hue2rgb p q (h + 1 / 3), hue2rgb p q h, hue2rgb p q (h - 1 / 3)))
     in (js_round (r * 255), js_round (g * 255), js_round (b * 255)))"

section \<open>accessibility.js: luminance and contrast\<close>

text \<open>The callback of \<open>rgb.map\<close> in \<open>calculateLuminance\<close>, on one channel.\<close>

definition linearize :: "int \<Rightarrow> real" where
  "linearize v0 =
     (let v = real_of_int v0 / 255
      in if v \<le> 0.03928 then v / 12.92 else ((v + 0.055) / 1.055) powr 2.4)"

definition calculateLuminance :: "rgb \<Rightarrow> real" where
  "calculateLuminance c = (case c of (r, g, b) \<Rightarrow>
     0.2126 * linearize r + 0.7152 * linearize g + 0.0722 * linearize b)"

definition getContrastRatio :: "rgb \<Rightarrow> rgb \<Rightarrow> real" where
  "getContrastRatio rgb1 rgb2 =
     (let luminance1 = calculateLuminance rgb1;
          luminance2 = calculateLuminance rgb2;
          lighter = max luminance1 luminance2;
          darker = min luminance1 luminance2
      in (lighter + 0.05) / (darker + 0.05))"

definition passesContrastCheck :: "rgb \<Rightarrow> rgb \<Rightarrow> bool \<Rightarrow> bool" where
  "passesContrastCheck c textRgb isLargeText =
     (let ratio = getContrastRatio c textRgb
      in if isLargeText then ratio \<ge> 3.0 else ratio \<ge> 4.5)"

section \<open>accessibility.js: the search for the nearest accessible colour\<close>

text \<open>
  The two variables the three phases of \<open>findAccessibleColor\<close> share. \<open>minDistance\<close> starts
  at \<open>Infinity\<close>, here \<open>None\<close>, and any distance is smaller than it.
\<close>

record search =
  closestHSL :: hsl
  minDistance :: "real option"

definition closer :: "real \<Rightarrow> real option \<Rightarrow> bool" where
  "closer distance m = (case m of None \<Rightarrow> True | Some d \<Rightarrow> distance < d)"

text \<open>The test both contrasts of a candidate have to pass, against black and against white.\<close>

definition passesBoth :: "hsl \<Rightarrow> bool" where
  "passesBoth testHSL =
     (let testRGB = hslToRgb testHSL;
          blackContrast = getContrastRatio testRGB (0, 0, 0);
          whiteContrast = getContrastRatio testRGB (255, 255, 255)
      in blackContrast \<ge> 4.5 \<and> whiteContrast \<ge> 4.5)"

text \<open>The body the three loops share: test the candidate, keep it when it is closer.\<close>

definition candidate :: "hsl \<Rightarrow> real \<Rightarrow> search \<Rightarrow> search" where
  "candidate testHSL distance st =
     (if passesBoth testHSL then
        (if closer distance (minDistance st)
         then st\<lparr>minDistance := Some distance, closestHSL := testHSL\<rparr>
         else st)
      else st)"

text \<open>Phase 1: \<open>for (let newL = 45; newL <= 65; newL++)\<close>, hue and saturation fixed.\<close>

function phase1 :: "hsl \<Rightarrow> int \<Rightarrow> search \<Rightarrow> search" where
  "phase1 c newL st =
     (if newL \<le> 65 then
        (case c of (h, s, l) \<Rightarrow>
           phase1 c (newL + 1)
             (candidate (h, s, real_of_int newL) \<bar>l - real_of_int newL\<bar> st))
      else st)"
  by pat_completeness auto
termination
  by (relation "measure (\<lambda>(c, newL, st). nat (66 - newL))") auto

text \<open>
  Phase 2, inner loop:
  \<open>for (let newS = Math.max(0, s - 20); newS <= Math.min(100, s + 20); newS += 5)\<close>.
\<close>

function phase2_sat :: "hsl \<Rightarrow> int \<Rightarrow> real \<Rightarrow> search \<Rightarrow> search" where
  "phase2_sat c newL newS st =
     (case c of (h, s, l) \<Rightarrow>
        if newS \<le> min 100 (s + 20) then
          phase2_sat c newL (newS + 5)
            (candidate (h, newS, real_of_int newL)
               (sqrt ((l - real_of_int newL) ^ 2 + (s - newS) ^ 2)) st)
        else st)"
  by pat_completeness auto
termination
  by (relation "measure (\<lambda>(c, newL, newS, st).
        nat (\<lfloor>min 100 (fst (snd c) + 20) - newS\<rfloor> + 1))") (auto, linarith)

text \<open>Phase 2, outer loop: \<open>for (let newL = 45; newL <= 65; newL++)\<close>.\<close>

function phase2 :: "hsl \<Rightarrow> int \<Rightarrow> search \<Rightarrow> search" where
  "phase2 c newL st =
     (if newL \<le> 65 then
        (case c of (h, s, l) \<Rightarrow>
           phase2 c (newL + 1) (phase2_sat c newL (max 0 (s - 20)) st))
      else st)"
  by pat_completeness auto
termination
  by (relation "measure (\<lambda>(c, newL, st). nat (66 - newL))") auto

text \<open>
  Phase 3, innermost loop:
  \<open>for (let newS = Math.max(0, s - 30); newS <= Math.min(100, s + 30); newS += 10)\<close>.
\<close>

function phase3_sat :: "hsl \<Rightarrow> real \<Rightarrow> int \<Rightarrow> real \<Rightarrow> search \<Rightarrow> search" where
  "phase3_sat c newH newL newS st =
     (case c of (h, s, l) \<Rightarrow>
        if newS \<le> min 100 (s + 30) then
          phase3_sat c newH newL (newS + 10)
            (candidate (newH, newS, real_of_int newL)
               (sqrt (((h - newH) / 3) ^ 2 + (l - real_of_int newL) ^ 2
                      + ((s - newS) / 2) ^ 2)) st)
        else st)"
  by pat_completeness auto
termination
  by (relation "measure (\<lambda>(c, newH, newL, newS, st).
        nat (\<lfloor>min 100 (fst (snd c) + 30) - newS\<rfloor> + 1))") (auto, linarith)

text \<open>Phase 3, middle loop: \<open>for (let newL = 45; newL <= 65; newL += 2)\<close>.\<close>

function phase3_light :: "hsl \<Rightarrow> real \<Rightarrow> int \<Rightarrow> search \<Rightarrow> search" where
  "phase3_light c newH newL st =
     (if newL \<le> 65 then
        (case c of (h, s, l) \<Rightarrow>
           phase3_light c newH (newL + 2) (phase3_sat c newH newL (max 0 (s - 30)) st))
      else st)"
  by pat_completeness auto
termination
  by (relation "measure (\<lambda>(c, newH, newL, st). nat (66 - newL))") auto

text \<open>
  Phase 3, outer loop: \<open>for (let hueShift = -30; hueShift <= 30; hueShift += 5)\<close> with
  \<open>newH = (h + hueShift + 360) % 360\<close>.
\<close>

function phase3 :: "hsl \<Rightarrow> int \<Rightarrow> search \<Rightarrow> search" where
  "phase3 c hueShift st =
     (if hueShift \<le> 30 then
        (case c of (h, s, l) \<Rightarrow>
           let newH = js_rem (h + real_of_int hueShift + 360) 360
           in phase3 c (hueShift + 5) (phase3_light c newH 45 st))
      else st)"
  by pat_completeness auto
termination
  by (relation "measure (\<lambda>(c, hueShift, st). nat (31 - hueShift))") auto

declare phase1.simps [simp del] phase2_sat.simps [simp del] phase2.simps [simp del]
  phase3_sat.simps [simp del] phase3_light.simps [simp del] phase3.simps [simp del]

definition fallback :: hsl where
  "fallback = (195, 60, 55)"

definition findAccessibleColor :: "hsl \<Rightarrow> hsl" where
  "findAccessibleColor originalHSL =
     (let st0 = \<lparr>closestHSL = originalHSL, minDistance = None\<rparr>;
          st1 = phase1 originalHSL 45 st0;
          st2 = (if minDistance st1 = None then phase2 originalHSL 45 st1 else st1);
          st3 = (if minDistance st2 = None then phase3 originalHSL (- 30) st2 else st2)
      in if minDistance st3 = None then fallback else closestHSL st3)"

section \<open>color-utils.js: hex strings\<close>

text \<open>
  A string is a list of characters. The hex strings the program reads and writes are ASCII,
  where a character, a byte and a UTF-16 code unit coincide.
\<close>

definition isHexDigit :: "char \<Rightarrow> bool" where
  "isHexDigit ch = (ch \<in> set ''0123456789abcdefABCDEF'')"

definition hexValue :: "char \<Rightarrow> int" where
  "hexValue ch =
     (let n = of_char ch :: nat
      in if 48 \<le> n \<and> n \<le> 57 then int n - 48
         else if 97 \<le> n \<and> n \<le> 102 then int n - 87
         else int n - 55)"

text \<open>
  \<open>parseInt(str, 16)\<close>: leading white space is skipped (the ASCII white space is
  modelled), then a sign and a prefix \<open>0x\<close> or \<open>0X\<close>; the longest run of hex digits
  that follows is the number, and the result is \<open>NaN\<close>, here \<open>None\<close>, when that run is
  empty.
\<close>

definition isWhiteSpace :: "char \<Rightarrow> bool" where
  "isWhiteSpace ch = (of_char ch \<in> {9, 10, 11, 12, 13, 32 :: nat})"

definition parseInt16 :: "string \<Rightarrow> int option" where
  "parseInt16 str =
     (let s1 = dropWhile isWhiteSpace str;
          (sign, s2) = (case s1 of
                          ch # rest \<Rightarrow> if ch = CHR ''-'' then (- 1, rest)
                                      else if ch = CHR ''+'' then (1, rest)
                                      else (1 :: int, s1)
                        | [] \<Rightarrow> (1, s1));
          s3 = (if take 2 s2 = ''0x'' \<or> take 2 s2 = ''0X'' then drop 2 s2 else s2);
          ds = takeWhile isHexDigit s3
      in if ds = [] then None
         else Some (sign * foldl (\<lambda>acc ch. 16 * acc + hexValue ch) 0 ds))"

text \<open>
  \<open>hexToRgb\<close>. A channel that \<open>parseInt\<close> reads as \<open>NaN\<close> has no integer value, and the
  triple is \<open>None\<close> then.
\<close>

definition hexToRgb :: "string \<Rightarrow> rgb option" where
  "hexToRgb hex0 =
     (let hex1 = (case hex0 of ch # rest \<Rightarrow> if ch = CHR ''#'' then rest else hex0 | [] \<Rightarrow> hex0);
          hex2 = (if length hex1 = 3
                  then [hex1 ! 0, hex1 ! 0, hex1 ! 1, hex1 ! 1, hex1 ! 2, hex1 ! 2]
                  else hex1)
      in case (parseInt16 (take 2 hex2), parseInt16 (take 2 (drop 2 hex2)),
               parseInt16 (take 2 (drop 4 hex2))) of
           (Some r, Some g, Some b) \<Rightarrow> Some (r, g, b)
         | _ \<Rightarrow> None)"

definition hexToHSL :: "string \<Rightarrow> hsl option" where
  "hexToHSL hex0 = map_option rgbToHSL (hexToRgb hex0)"

text \<open>\<open>Number.prototype.toString(16)\<close> on an integer.\<close>

definition hexDigit :: "nat \<Rightarrow> char" where
  "hexDigit n = ''0123456789abcdef'' ! n"

fun digits16 :: "nat \<Rightarrow> string" where
  "digits16 n = (if n < 16 then [hexDigit n] else digits16 (n div 16) @ [hexDigit (n mod 16)])"

declare digits16.simps [simp del]

definition toString16 :: "int \<Rightarrow> string" where
  "toString16 c = (if c < 0 then CHR ''-'' # digits16 (nat (- c)) else digits16 (nat c))"

definition toHex :: "int \<Rightarrow> string" where
  "toHex c = (let hex0 = toString16 c in if length hex0 = 1 then CHR ''0'' # hex0 else hex0)"

definition hslToHex :: "hsl \<Rightarrow> string" where
  "hslToHex c = (case hslToRgb c of (r, g, b) \<Rightarrow> ''#'' @ toHex r @ toHex g @ toHex b)"

definition isValidHex :: "string \<Rightarrow> bool" where
  "isValidHex color =
     (case color of
        ch # ds \<Rightarrow> ch = CHR ''#'' \<and> (length ds = 6 \<or> length ds = 3) \<and> list_all isHexDigit ds
      | [] \<Rightarrow> False)"

text \<open>\<open>String.prototype.trim\<close>, on ASCII white space.\<close>

definition trim :: "string \<Rightarrow> string" where
  "trim str = rev (dropWhile isWhiteSpace (rev (dropWhile isWhiteSpace str)))"

definition normalizeHex :: "string \<Rightarrow> string" where
  "normalizeHex color0 =
     (let color = trim color0
      in if take 1 color \<noteq> ''#'' then ''#'' @ color else color)"

section \<open>scale-generator.js\<close>

definition COLOR_LEVELS :: "int list" where
  "COLOR_LEVELS = [100, 200, 300, 400, 500, 600, 700]"

definition calculateHSL :: "hsl \<Rightarrow> int \<Rightarrow> hsl" where
  "calculateHSL hsl400 lv = (case hsl400 of (h, s, l) \<Rightarrow>
     if lv = 400 then hsl400
     else if s < 10 then
       (let originalHue = h;
            (newL, newS) =
              (if lv < 400 then
                 (let factor = (400 - real_of_int lv) / 300
                  in (l + (factor * (95 - l)), max 0 (s - (factor * s))))
               else
                 (let factor = (real_of_int lv - 400) / 300
                  in (l - (factor * (l - 28)), s)));
            newL' = max 0 (min 100 newL);
            newS' = max 0 (min 100 newS)
        in (originalHue, newS', newL'))
     else
       (let l100 = min 94 (l + 44);
            s100 = max 0 (s - 1);
            l700 = max 24 (l - 26);
            s700 = min 100 (s + 28);
            (newL, newS) =
              (if lv < 400 then
                 (let factor = (400 - real_of_int lv) / 300
                  in (l - (factor * (l - l100)), s - (factor * (s - s100))))
               else
                 (let factor = (real_of_int lv - 400) / 300
                  in (l - (factor * (l - l700)), s + (factor * (s700 - s)))));
            newL' = max 0 (min 100 newL);
            newS' = max 0 (min 100 newS)
        in (h, newS', newL')))"

record shade =
  level :: int
  hsl :: hsl
  hex :: string
  rgb :: rgb
  blackContrast :: real
  whiteContrast :: real
  blackPassesNormal :: bool
  blackPassesLarge :: bool
  whitePassesNormal :: bool
  whitePassesLarge :: bool
  preferWhiteText :: bool

text \<open>
  The record both generators build from a level and an HSL colour: hex, RGB, the two
  contrast ratios and the flags derived from them.
\<close>

definition shadeOf :: "int \<Rightarrow> hsl \<Rightarrow> shade" where
  "shadeOf lv c =
     (let hex' = hslToHex c;
          rgb' = hslToRgb c;
          blackContrast' = getContrastRatio rgb' (0, 0, 0);
          whiteContrast' = getContrastRatio rgb' (255, 255, 255)
      in \<lparr>level = lv, hsl = c, hex = hex', rgb = rgb',
          blackContrast = blackContrast', whiteContrast = whiteContrast',
          blackPassesNormal = (blackContrast' \<ge> 4.5),
          blackPassesLarge = (blackContrast' \<ge> 3.0),
          whitePassesNormal = (whiteContrast' \<ge> 4.5),
          whitePassesLarge = (whiteContrast' \<ge> 3.0),
          preferWhiteText = (whiteContrast' > blackContrast')\<rparr>)"

definition generateColorScale :: "hsl \<Rightarrow> shade list" where
  "generateColorScale baseHSL = map (\<lambda>lv. shadeOf lv (calculateHSL baseHSL lv)) COLOR_LEVELS"

section \<open>dark-mode-generator.js\<close>

datatype error = TypeError

definition adjustForDarkMode :: "hsl \<Rightarrow> hsl" where
  "adjustForDarkMode c = (case c of (h, s, l) \<Rightarrow>
     let newS = min (s * 1.1) 100 in (h, newS, l))"

definition levelMap :: "int \<rightharpoonup> int" where
  "levelMap = [100 \<mapsto> 700, 200 \<mapsto> 600, 300 \<mapsto> 500, 400 \<mapsto> 400,
               500 \<mapsto> 300, 600 \<mapsto> 200, 700 \<mapsto> 100]"

text \<open>
  The scale the dark mode is derived from: the light scale when its level-400 record passes
  both contrasts, else the accessible scale passed in, else (\<open>null\<close>, here \<open>None\<close>) the
  scale generated from the accessible colour found for the base.
\<close>

definition chooseBaseScale :: "shade \<Rightarrow> shade list \<Rightarrow> shade list option \<Rightarrow> shade list" where
  "chooseBaseScale base400 lightModeScale accessibleScale =
     (let isOriginalAccessible = (blackPassesNormal base400 \<and> whitePassesNormal base400)
      in if isOriginalAccessible then lightModeScale
         else (case accessibleScale of
                 Some sc \<Rightarrow> sc
               | None \<Rightarrow> generateColorScale (findAccessibleColor (hsl base400))))"

text \<open>
  The callback of \<open>lightModeScale.map\<close>. Reading \<open>.hsl\<close> of the \<open>undefined\<close> that
  \<open>find\<close> returns for a missing level 400 is a \<open>TypeError\<close>; a missing paired level only
  writes to the console, which is not modelled, and keeps the colour's own HSL.
\<close>

definition darkShade :: "shade list \<Rightarrow> shade \<Rightarrow> error + shade" where
  "darkShade baseScale color =
     (if level color = 400 then
        (case find (\<lambda>c. level c = 400) baseScale of
           None \<Rightarrow> Inl TypeError
         | Some baseColor \<Rightarrow> Inr (shadeOf (level color) (hsl baseColor)))
      else
        (let reversedColor =
               (case levelMap (level color) of
                  None \<Rightarrow> None
                | Some reversedLevel \<Rightarrow> find (\<lambda>c. level c = reversedLevel) baseScale)
         in case reversedColor of
              None \<Rightarrow> Inr (shadeOf (level color) (hsl color))
            | Some rc \<Rightarrow> Inr (shadeOf (level color) (adjustForDarkMode (hsl rc)))))"

text \<open>\<open>Array.prototype.map\<close> with a callback that may throw: the first error ends it.\<close>

fun mapE :: "('a \<Rightarrow> error + 'b) \<Rightarrow> 'a list \<Rightarrow> error + 'b list" where
  "mapE f [] = Inr []"
| "mapE f (x # xs) =
     (case f x of
        Inl e \<Rightarrow> Inl e
      | Inr y \<Rightarrow> (case mapE f xs of Inl e \<Rightarrow> Inl e | Inr ys \<Rightarrow> Inr (y # ys)))"

definition generateDarkModeScale :: "shade list \<Rightarrow> shade list option \<Rightarrow> error + shade list" where
  "generateDarkModeScale lightModeScale accessibleScale =
     (case find (\<lambda>color. level color = 400) lightModeScale of
        None \<Rightarrow> Inl TypeError
      | Some base400 \<Rightarrow>
          mapE (darkShade (chooseBaseScale base400 lightModeScale accessibleScale))
            lightModeScale)"

section \<open>Auxiliary notions for the proofs\<close>

text \<open>\<open>String.prototype.toLowerCase\<close>, on ASCII letters.\<close>

definition toLowerCase :: "string \<Rightarrow> string" where
  "toLowerCase str =
     map (\<lambda>ch. case map_of (zip ''ABCDEFGHIJKLMNOPQRSTUVWXYZ'' ''abcdefghijklmnopqrstuvwxyz'') ch of
                 Some lc \<Rightarrow> lc
               | None \<Rightarrow> ch) str"

text \<open>
  What every loop of the search keeps: once a distance has been recorded, the colour recorded
  with it passes both contrasts and its lightness is between 45 and 65.
\<close>

definition found_ok :: "search \<Rightarrow> bool" where
  "found_ok st = (minDistance st = None \<or>
     (passesBoth (closestHSL st) \<and> 45 \<le> lightness (closestHSL st)
      \<and> lightness (closestHSL st) \<le> 65))"

text \<open>
  What phase 1 has established when its counter is \<open>k\<close>: nothing below \<open>k\<close> passes and
  nothing is recorded, or the recorded colour is a passing lightness below \<open>k\<close> that is
  nearest to \<open>l\<close> among the passing ones below \<open>k\<close>.
\<close>

definition phase1_best :: "real \<Rightarrow> real \<Rightarrow> real \<Rightarrow> int \<Rightarrow> search \<Rightarrow> bool" where
  "phase1_best h s l k st =
     ((minDistance st = None \<and> (\<forall>m. 45 \<le> m \<and> m < k \<longrightarrow> \<not> passesBoth (h, s, real_of_int m)))
     \<or> (\<exists>n. 45 \<le> n \<and> n < k \<and> closestHSL st = (h, s, real_of_int n)
            \<and> minDistance st = Some \<bar>l - real_of_int n\<bar>
            \<and> passesBoth (h, s, real_of_int n)
            \<and> (\<forall>m. 45 \<le> m \<and> m < k \<and> passesBoth (h, s, real_of_int m)
                   \<longrightarrow> \<bar>l - real_of_int n\<bar> \<le> \<bar>l - real_of_int m\<bar>)))"


section \<open>The search returns an accessible colour or the fallback\<close>

lemma candidate_found_ok:
  "found_ok st \<Longrightarrow> 45 \<le> lightness t \<Longrightarrow> lightness t \<le> 65 \<Longrightarrow> found_ok (candidate t d st)"
  by (simp add: found_ok_def candidate_def)

lemma phase1_found_ok:
  "found_ok st \<Longrightarrow> 45 \<le> newL \<Longrightarrow> found_ok (phase1 c newL st)"
proof (induction c newL st rule: phase1.induct)
  case (1 c newL st)
  obtain h s l where c: "c = (h, s, l)" by (cases c) auto
  show ?case
  proof (cases "newL \<le> 65")
    case True
    have "found_ok (candidate (h, s, real_of_int newL) \<bar>l - real_of_int newL\<bar> st)"
      using "1.prems" True by (intro candidate_found_ok) (simp_all add: lightness_def)
    with "1.IH"[of h "(s, l)" s l] "1.prems" True show ?thesis
      by (subst phase1.simps) (simp add: c)
  next
    case False
    with "1.prems" show ?thesis by (subst phase1.simps) simp
  qed
qed

lemma phase2_sat_found_ok:
  "found_ok st \<Longrightarrow> 45 \<le> newL \<Longrightarrow> newL \<le> 65 \<Longrightarrow> found_ok (phase2_sat c newL newS st)"
proof (induction c newL newS st rule: phase2_sat.induct)
  case (1 c newL newS st)
  obtain h s l where c: "c = (h, s, l)" by (cases c) auto
  show ?case
  proof (cases "newS \<le> min 100 (s + 20)")
    case True
    have "found_ok (candidate (h, newS, real_of_int newL)
               (sqrt ((l - real_of_int newL) ^ 2 + (s - newS) ^ 2)) st)"
      using "1.prems" by (intro candidate_found_ok) (simp_all add: lightness_def)
    then have "found_ok (phase2_sat c newL (newS + 5) (candidate (h, newS, real_of_int newL)
               (sqrt ((l - real_of_int newL) ^ 2 + (s - newS) ^ 2)) st))"
      using "1.IH"[OF c[symmetric] refl True] "1.prems" by blast
    then show ?thesis using True
      by (subst phase2_sat.simps) (simp add: c del: min_less_iff_conj min.bounded_iff)
  next
    case False
    with "1.prems" show ?thesis by (subst phase2_sat.simps) (auto simp: c)
  qed
qed

lemma phase2_found_ok:
  "found_ok st \<Longrightarrow> 45 \<le> newL \<Longrightarrow> found_ok (phase2 c newL st)"
proof (induction c newL st rule: phase2.induct)
  case (1 c newL st)
  obtain h s l where c: "c = (h, s, l)" by (cases c) auto
  show ?case
  proof (cases "newL \<le> 65")
    case True
    have "found_ok (phase2_sat c newL (max 0 (s - 20)) st)"
      using "1.prems" True by (intro phase2_sat_found_ok)
    with "1.IH"[of h "(s, l)" s l] "1.prems" True show ?thesis
      by (subst phase2.simps) (simp add: c)
  next
    case False
    with "1.prems" show ?thesis by (subst phase2.simps) simp
  qed
qed

lemma phase3_sat_found_ok:
  "found_ok st \<Longrightarrow> 45 \<le> newL \<Longrightarrow> newL \<le> 65 \<Longrightarrow> found_ok (phase3_sat c newH newL newS st)"
proof (induction c newH newL newS st rule: phase3_sat.induct)
  case (1 c newH newL newS st)
  obtain h s l where c: "c = (h, s, l)" by (cases c) auto
  show ?case
  proof (cases "newS \<le> min 100 (s + 30)")
    case True
    have "found_ok (candidate (newH, newS, real_of_int newL)
               (sqrt (((h - newH) / 3) ^ 2 + (l - real_of_int newL) ^ 2
                      + ((s - newS) / 2) ^ 2)) st)"
      using "1.prems" by (intro candidate_found_ok) (simp_all add: lightness_def)
    then have "found_ok (phase3_sat c newH newL (newS + 10) (candidate (newH, newS, real_of_int newL)
               (sqrt (((h - newH) / 3) ^ 2 + (l - real_of_int newL) ^ 2
                      + ((s - newS) / 2) ^ 2)) st))"
      using "1.IH"[OF c[symmetric] refl True] "1.prems" by blast
    then show ?thesis using True
      by (subst phase3_sat.simps) (simp add: c del: min_less_iff_conj min.bounded_iff)
  next
    case False
    with "1.prems" show ?thesis by (subst phase3_sat.simps) (auto simp: c)
  qed
qed

lemma phase3_light_found_ok:
  "found_ok st \<Longrightarrow> 45 \<le> newL \<Longrightarrow> found_ok (phase3_light c newH newL st)"
proof (induction c newH newL st rule: phase3_light.induct)
  case (1 c newH newL st)
  obtain h s l where c: "c = (h, s, l)" by (cases c) auto
  show ?case
  proof (cases "newL \<le> 65")
    case True
    have "found_ok (phase3_sat c newH newL (max 0 (s - 30)) st)"
      using "1.prems" True by (intro phase3_sat_found_ok)
    with "1.IH"[of h "(s, l)" s l] "1.prems" True show ?thesis
      by (subst phase3_light.simps) (simp add: c)
  next
    case False
    with "1.prems" show ?thesis by (subst phase3_light.simps) simp
  qed
qed

lemma phase3_found_ok:
  "found_ok st \<Longrightarrow> found_ok (phase3 c hueShift st)"
proof (induction c hueShift st rule: phase3.induct)
  case (1 c hueShift st)
  obtain h s l where c: "c = (h, s, l)" by (cases c) auto
  show ?case
  proof (cases "hueShift \<le> 30")
    case True
    have "found_ok (phase3_light c (js_rem (h + real_of_int hueShift + 360) 360) 45 st)"
      using "1.prems" by (intro phase3_light_found_ok) simp_all
    with "1.IH"[of h "(s, l)" s l] "1.prems" True show ?thesis
      by (subst phase3.simps) (simp add: c Let_def)
  next
    case False
    with "1.prems" show ?thesis by (subst phase3.simps) simp
  qed
qed

lemma search_found_ok:
  "findAccessibleColor c = fallback \<or>
   (passesBoth (findAccessibleColor c) \<and> 45 \<le> lightness (findAccessibleColor c)
    \<and> lightness (findAccessibleColor c) \<le> 65)"
proof -
  define st0 where "st0 = \<lparr>closestHSL = c, minDistance = None\<rparr>"
  define st1 where "st1 = phase1 c 45 st0"
  define st2 where "st2 = (if minDistance st1 = None then phase2 c 45 st1 else st1)"
  define st3 where "st3 = (if minDistance st2 = None then phase3 c (- 30) st2 else st2)"
  have r: "findAccessibleColor c = (if minDistance st3 = None then fallback else closestHSL st3)"
    unfolding findAccessibleColor_def Let_def st3_def st2_def st1_def st0_def by (rule refl)
  have "found_ok st0" by (simp add: found_ok_def st0_def)
  then have "found_ok st1" unfolding st1_def by (intro phase1_found_ok) simp_all
  then have "found_ok st2" unfolding st2_def by (simp add: phase2_found_ok)
  then have "found_ok st3" unfolding st3_def by (simp add: phase3_found_ok)
  then show ?thesis unfolding r by (auto simp: found_ok_def)
qed

text \<open>
  C1. Whatever the input, \<open>findAccessibleColor\<close> returns (it is a total function, each
  of its loops terminating), and its result has a contrast ratio of at least 4.5 against
  black and against white, or is the fallback (195, 60, 55).
\<close>

theorem findAccessibleColor_accessible_or_fallback:
  "(getContrastRatio (hslToRgb (findAccessibleColor c)) (0, 0, 0) \<ge> 4.5
    \<and> getContrastRatio (hslToRgb (findAccessibleColor c)) (255, 255, 255) \<ge> 4.5)
   \<or> findAccessibleColor c = (195, 60, 55)"
  using search_found_ok[of c] by (auto simp: passesBoth_def Let_def fallback_def)

text \<open>
  C10. Whatever the input, the lightness of the result of \<open>findAccessibleColor\<close> is
  between 45 and 65.
\<close>

theorem findAccessibleColor_lightness:
  "45 \<le> lightness (findAccessibleColor c) \<and> lightness (findAccessibleColor c) \<le> 65"
  using search_found_ok[of c] by (auto simp: fallback_def lightness_def)

section \<open>Bounds on the luminance\<close>

lemma powr_24_pow5: "0 < (x::real) \<Longrightarrow> (x powr 2.4) ^ 5 = x ^ 12"
proof -
  assume x: "0 < x"
  have "(x powr 2.4) ^ 5 = (x powr 2.4) powr (real 5)"
    using x by (intro powr_realpow[symmetric]) simp
  also have "\<dots> = x powr 12" by (simp add: powr_powr)
  also have "\<dots> = x ^ 12" using x by (simp add: powr_numeral del: powr_gt_zero)
  finally show ?thesis .
qed

lemma powr_24_lower:
  assumes "0 < (x::real)" and "a ^ 5 \<le> x ^ 12"
  shows "a \<le> x powr 2.4"
proof -
  have "a ^ Suc 4 \<le> (x powr 2.4) ^ Suc 4"
    using assms(2) powr_24_pow5[OF assms(1)] by (simp only: eval_nat_numeral[symmetric])
  then show ?thesis by (rule power_le_imp_le_base) simp
qed

lemma powr_24_upper:
  assumes "0 < (x::real)" and "0 \<le> b" and "x ^ 12 \<le> b ^ 5"
  shows "x powr 2.4 \<le> b"
proof -
  have "(x powr 2.4) ^ Suc 4 \<le> b ^ Suc 4"
    using assms(3) powr_24_pow5[OF assms(1)] by (simp only: eval_nat_numeral[symmetric])
  then show ?thesis by (rule power_le_imp_le_base) (rule assms(2))
qed

lemma linearize_range:
  assumes "0 \<le> v" and "v \<le> 255"
  shows "0 \<le> linearize v \<and> linearize v \<le> 1"
proof (cases "real_of_int v / 255 \<le> 0.03928")
  case True
  with assms show ?thesis by (simp add: linearize_def)
next
  case False
  have "((real_of_int v / 255 + 0.055) / 1.055) powr 2.4 \<le> 1"
    using assms by (intro powr_le1) simp_all
  with False show ?thesis by (simp add: linearize_def)
qed

lemma luminance_range:
  assumes "0 \<le> r" "r \<le> 255" "0 \<le> g" "g \<le> 255" "0 \<le> b" "b \<le> 255"
  shows "0 \<le> calculateLuminance (r, g, b) \<and> calculateLuminance (r, g, b) \<le> 1"
  using linearize_range[of r] linearize_range[of g] linearize_range[of b] assms
  by (simp add: calculateLuminance_def)

lemma linearize_0: "linearize 0 = 0"
  by (simp add: linearize_def)

lemma linearize_255: "linearize 255 = 1"
  by (simp add: linearize_def)

lemma luminance_black: "calculateLuminance (0, 0, 0) = 0"
  by (simp add: calculateLuminance_def linearize_0)

lemma luminance_white: "calculateLuminance (255, 255, 255) = 1"
  by (simp add: calculateLuminance_def linearize_255)

lemma linearize_117: "0.176 \<le> linearize 117 \<and> linearize 117 \<le> 0.18"
proof -
  have l: "linearize 117 = ((117 / 255 + 0.055) / 1.055) powr 2.4"
    by (simp add: linearize_def)
  show ?thesis unfolding l
    by (intro conjI powr_24_lower powr_24_upper) (simp_all add: power_divide field_simps)
qed

lemma hslToRgb_gray46: "hslToRgb (0, 0, 46) = (117, 117, 117)"
  by (simp add: hslToRgb_def js_round_def)

lemma passes_gray46: "passesBoth (0, 0, 46)"
proof -
  have lum: "calculateLuminance (117, 117, 117) = linearize 117"
    by (simp add: calculateLuminance_def)
  show ?thesis
    using linearize_117
    by (simp add: passesBoth_def hslToRgb_gray46 getContrastRatio_def Let_def lum
        luminance_black luminance_white field_simps)
qed

lemma hslToRgb_fallback: "hslToRgb fallback = (71, 175, 209)"
  by (simp add: hslToRgb_def fallback_def hue2rgb_def js_round_def Let_def)

lemma linearize_71: "0.06 \<le> linearize 71"
proof -
  have l: "linearize 71 = ((71 / 255 + 0.055) / 1.055) powr 2.4"
    by (simp add: linearize_def)
  show ?thesis unfolding l by (intro powr_24_lower) (simp_all add: power_divide field_simps)
qed

lemma linearize_175: "0.42 \<le> linearize 175"
proof -
  have l: "linearize 175 = ((175 / 255 + 0.055) / 1.055) powr 2.4"
    by (simp add: linearize_def)
  show ?thesis unfolding l by (intro powr_24_lower) (simp_all add: power_divide field_simps)
qed

lemma linearize_209: "0.63 \<le> linearize 209"
proof -
  have l: "linearize 209 = ((209 / 255 + 0.055) / 1.055) powr 2.4"
    by (simp add: linearize_def)
  show ?thesis unfolding l by (intro powr_24_lower) (simp_all add: power_divide field_simps)
qed

lemma luminance_fallback: "0.35 \<le> calculateLuminance (71, 175, 209)"
  using linearize_71 linearize_175 linearize_209
  by (simp add: calculateLuminance_def)

text \<open>
  C2. The fallback (195, 60, 55) is the RGB colour (71, 175, 209). Its contrast ratio against
  black is above 4.5, but against white it is below 2.7, so it does not pass the test the
  search applies to its candidates.
\<close>

theorem fallback_fails_white:
  "hslToRgb (195, 60, 55) = (71, 175, 209)
   \<and> getContrastRatio (hslToRgb (195, 60, 55)) (0, 0, 0) \<ge> 4.5
   \<and> getContrastRatio (hslToRgb (195, 60, 55)) (255, 255, 255) < 2.7
   \<and> \<not> passesBoth (195, 60, 55)"
proof -
  have "getContrastRatio (71, 175, 209) (0, 0, 0) \<ge> 4.5
      \<and> getContrastRatio (71, 175, 209) (255, 255, 255) < 2.7"
    using luminance_fallback luminance_range[of 71 175 209]
    by (simp add: getContrastRatio_def Let_def luminance_black luminance_white field_simps)
  then show ?thesis
    using hslToRgb_fallback by (simp add: fallback_def passesBoth_def Let_def)
qed

section \<open>Phase 1 of the search\<close>

lemma less_Suc_int: "(m::int) < k + 1 \<longleftrightarrow> m < k \<or> m = k"
  by auto

lemma candidate_phase1_best:
  assumes "phase1_best h s l k st" and "45 \<le> k"
  shows "phase1_best h s l (k + 1) (candidate (h, s, real_of_int k) \<bar>l - real_of_int k\<bar> st)"
proof -
  from assms(1) consider
    (none) "minDistance st = None" "\<forall>m. 45 \<le> m \<and> m < k \<longrightarrow> \<not> passesBoth (h, s, real_of_int m)"
    | (some) n where "45 \<le> n" "n < k" "closestHSL st = (h, s, real_of_int n)"
        "minDistance st = Some \<bar>l - real_of_int n\<bar>" "passesBoth (h, s, real_of_int n)"
        "\<forall>m. 45 \<le> m \<and> m < k \<and> passesBoth (h, s, real_of_int m)
                   \<longrightarrow> \<bar>l - real_of_int n\<bar> \<le> \<bar>l - real_of_int m\<bar>"
    unfolding phase1_best_def by auto
  then show ?thesis
  proof cases
    case none
    show ?thesis
    proof (cases "passesBoth (h, s, real_of_int k)")
      case True
      then have "candidate (h, s, real_of_int k) \<bar>l - real_of_int k\<bar> st
        = st\<lparr>minDistance := Some \<bar>l - real_of_int k\<bar>, closestHSL := (h, s, real_of_int k)\<rparr>"
        using none by (simp add: candidate_def closer_def)
      with none True assms(2) show ?thesis
        unfolding phase1_best_def less_Suc_int
        by (intro disjI2 exI[of _ k]) auto
    next
      case False
      then have "candidate (h, s, real_of_int k) \<bar>l - real_of_int k\<bar> st = st"
        by (simp add: candidate_def)
      with none False show ?thesis
        unfolding phase1_best_def less_Suc_int by (intro disjI1) auto
    qed
  next
    case some
    show ?thesis
    proof (cases "passesBoth (h, s, real_of_int k) \<and> \<bar>l - real_of_int k\<bar> < \<bar>l - real_of_int n\<bar>")
      case True
      then have "candidate (h, s, real_of_int k) \<bar>l - real_of_int k\<bar> st
        = st\<lparr>minDistance := Some \<bar>l - real_of_int k\<bar>, closestHSL := (h, s, real_of_int k)\<rparr>"
        using some by (simp add: candidate_def closer_def)
      moreover have "\<forall>m. 45 \<le> m \<and> (m < k \<or> m = k) \<and> passesBoth (h, s, real_of_int m)
                   \<longrightarrow> \<bar>l - real_of_int k\<bar> \<le> \<bar>l - real_of_int m\<bar>"
        using some(6) True by force
      ultimately show ?thesis using True assms(2)
        unfolding phase1_best_def less_Suc_int
        by (intro disjI2 exI[of _ k]) simp
    next
      case False
      then have "candidate (h, s, real_of_int k) \<bar>l - real_of_int k\<bar> st = st"
        using some by (auto simp add: candidate_def closer_def)
      moreover have "\<forall>m. 45 \<le> m \<and> (m < k \<or> m = k) \<and> passesBoth (h, s, real_of_int m)
                   \<longrightarrow> \<bar>l - real_of_int n\<bar> \<le> \<bar>l - real_of_int m\<bar>"
        using some(6) False by force
      ultimately show ?thesis using some
        unfolding phase1_best_def less_Suc_int
        by (intro disjI2 exI[of _ n]) simp
    qed
  qed
qed

lemma phase1_best_loop:
  "phase1_best h s l k st \<Longrightarrow> 45 \<le> k \<Longrightarrow> k \<le> 66 \<Longrightarrow> phase1_best h s l 66 (phase1 (h, s, l) k st)"
proof (induction "(h, s, l)" k st rule: phase1.induct)
  case (1 newL st)
  show ?case
  proof (cases "newL \<le> 65")
    case True
    have "phase1_best h s l (newL + 1) (candidate (h, s, real_of_int newL) \<bar>l - real_of_int newL\<bar> st)"
      using "1.prems" by (intro candidate_phase1_best)
    then have "phase1_best h s l 66 (phase1 (h, s, l) (newL + 1)
        (candidate (h, s, real_of_int newL) \<bar>l - real_of_int newL\<bar> st))"
      using "1.hyps"[OF True refl refl] "1.prems" True by simp
    then show ?thesis using True by (subst phase1.simps) simp
  next
    case False
    with "1.prems" have "newL = 66" by simp
    with "1.prems" show ?thesis by (subst phase1.simps) simp
  qed
qed

lemma phase1_result:
  "phase1_best h s l 66 (phase1 (h, s, l) 45 \<lparr>closestHSL = (h, s, l), minDistance = None\<rparr>)"
  by (rule phase1_best_loop) (auto simp add: phase1_best_def)

text \<open>
  C6. When some integer lightness from 45 to 65 makes the colour with the input's hue and
  saturation pass both contrasts, the result is what phase 1 recorded (the later phases are
  not run): it keeps hue and saturation, and its lightness is an integer from 45 to 65 that
  passes and is at least as near to the input's lightness as every other passing one.
\<close>

theorem findAccessibleColor_phase1:
  assumes "\<exists>n\<in>{45..65}. passesBoth (h, s, real_of_int n)"
  shows "findAccessibleColor (h, s, l)
           = closestHSL (phase1 (h, s, l) 45 \<lparr>closestHSL = (h, s, l), minDistance = None\<rparr>)
         \<and> (\<exists>n\<in>{45..65}. findAccessibleColor (h, s, l) = (h, s, real_of_int n)
               \<and> passesBoth (h, s, real_of_int n)
               \<and> (\<forall>m\<in>{45..65}. passesBoth (h, s, real_of_int m)
                     \<longrightarrow> \<bar>l - real_of_int n\<bar> \<le> \<bar>l - real_of_int m\<bar>))"
proof -
  define st1 where "st1 = phase1 (h, s, l) 45 \<lparr>closestHSL = (h, s, l), minDistance = None\<rparr>"
  have b: "phase1_best h s l 66 st1" unfolding st1_def by (rule phase1_result)
  from assms obtain n0 :: int where n0: "45 \<le> n0" "n0 < 66" "passesBoth (h, s, real_of_int n0)"
    by auto
  with b obtain n where n: "45 \<le> n" "n < 66" "closestHSL st1 = (h, s, real_of_int n)"
        "minDistance st1 = Some \<bar>l - real_of_int n\<bar>" "passesBoth (h, s, real_of_int n)"
        "\<forall>m. 45 \<le> m \<and> m < 66 \<and> passesBoth (h, s, real_of_int m)
                   \<longrightarrow> \<bar>l - real_of_int n\<bar> \<le> \<bar>l - real_of_int m\<bar>"
    unfolding phase1_best_def by auto
  have r: "findAccessibleColor (h, s, l) = closestHSL st1"
    using n(4) unfolding findAccessibleColor_def Let_def st1_def[symmetric] by simp
  show ?thesis
    unfolding st1_def[symmetric] r
    using n by (intro conjI refl bexI[of _ n]) auto
qed

theorem findAccessibleColor_phase1_witness:
  "(\<exists>n\<in>{45..65}. passesBoth (0, 0, real_of_int n))
   \<and> findAccessibleColor (0, 0, 50)
       = closestHSL (phase1 (0, 0, 50) 45 \<lparr>closestHSL = (0, 0, 50), minDistance = None\<rparr>)
   \<and> (\<exists>n\<in>{45..65}. findAccessibleColor (0, 0, 50) = (0, 0, real_of_int n)
         \<and> passesBoth (0, 0, real_of_int n)
         \<and> (\<forall>m\<in>{45..65}. passesBoth (0, 0, real_of_int m)
               \<longrightarrow> \<bar>50 - real_of_int n\<bar> \<le> \<bar>50 - real_of_int m\<bar>))"
proof -
  have h: "\<exists>n\<in>{45..65}. passesBoth (0, 0, real_of_int n)"
    using passes_gray46 by (intro bexI[of _ 46]) simp_all
  show ?thesis
    using h findAccessibleColor_phase1[OF h, of 50] by blast
qed

section \<open>RGB to HSL and back\<close>

lemma hue2rgb_red:
  assumes "0 \<le> x" "x \<le> 1"
  shows "hue2rgb p q (x / 6 + 1 / 3) = q"
    and "hue2rgb p q (x / 6) = p + (q - p) * x"
    and "hue2rgb p q (x / 6 - 1 / 3) = p"
  using assms by (auto simp: hue2rgb_def Let_def field_simps)

lemma hue2rgb_red_wrap:
  assumes "0 < y" "y \<le> 1"
  shows "hue2rgb p q ((6 - y) / 6 + 1 / 3) = q"
    and "hue2rgb p q ((6 - y) / 6) = p"
    and "hue2rgb p q ((6 - y) / 6 - 1 / 3) = p + (q - p) * y"
  using assms by (auto simp: hue2rgb_def Let_def field_simps)

lemma hue2rgb_green:
  assumes "- 1 \<le> z" "z \<le> 1"
  shows "hue2rgb p q ((z + 2) / 6 + 1 / 3) = (if z < 0 then p + (q - p) * (- z) else p)"
    and "hue2rgb p q ((z + 2) / 6) = q"
    and "hue2rgb p q ((z + 2) / 6 - 1 / 3) = (if z < 0 then p else p + (q - p) * z)"
  using assms by (auto simp: hue2rgb_def Let_def field_simps)

lemma hue2rgb_blue:
  assumes "- 1 < w" "w < 1"
  shows "hue2rgb p q ((w + 4) / 6 + 1 / 3) = (if w < 0 then p else p + (q - p) * w)"
    and "hue2rgb p q ((w + 4) / 6) = (if w < 0 then p + (q - p) * (- w) else p)"
    and "hue2rgb p q ((w + 4) / 6 - 1 / 3) = q"
  using assms by (auto simp: hue2rgb_def Let_def field_simps)


lemma chroma_q:
  fixes mx mn :: real
  assumes "0 \<le> mn" "mn < mx" "mx \<le> 1"
  defines "l \<equiv> (mx + mn) / 2"
  defines "s \<equiv> (if l > 0.5 then (mx - mn) / (2 - mx - mn) else (mx - mn) / (mx + mn))"
  shows "s \<noteq> 0" and "(if l < 0.5 then l * (1 + s) else l + s - l * s) = mx"
proof -
  show "s \<noteq> 0" using assms(1-3) unfolding s_def l_def by auto
  show "(if l < 0.5 then l * (1 + s) else l + s - l * s) = mx"
  proof (cases "l > 0.5")
    case True
    then have k: "2 - mx - mn \<noteq> 0" using assms(1-3) unfolding l_def by auto
    have s: "s * (2 - mx - mn) = mx - mn" using True k by (simp add: s_def)
    have "l + s - l * s = l + s * (2 - mx - mn) / 2" unfolding l_def by (simp add: field_simps)
    also have "\<dots> = mx" unfolding s l_def by (simp add: field_simps)
    finally show ?thesis using True by simp
  next
    case False
    have k: "mx + mn \<noteq> 0" using assms(1-3) by auto
    have s: "s * (mx + mn) = mx - mn" using False k by (simp add: s_def)
    have ls: "l * s = (mx - mn) / 2"
      using s unfolding l_def by (simp add: field_simps)
    show ?thesis
    proof (cases "l < 0.5")
      case True
      have "l * (1 + s) = l + l * s" by (simp add: algebra_simps)
      also have "\<dots> = mx" unfolding ls unfolding l_def by (simp add: field_simps)
      finally show ?thesis using True by simp
    next
      case half: False
      with False have one: "mx + mn = 1" unfolding l_def by simp
      then have "s = mx - mn" using s by simp
      then have "l + s - l * s = mx" unfolding ls unfolding l_def using one by (simp add: field_simps)
      then show ?thesis using half by simp
    qed
  qed
qed

lemma unit_roundtrip:
  fixes r g b :: real
  assumes rng: "0 \<le> r" "r \<le> 1" "0 \<le> g" "g \<le> 1" "0 \<le> b" "b \<le> 1"
  defines "mx \<equiv> max (max r g) b"
  defines "mn \<equiv> min (min r g) b"
  defines "d \<equiv> mx - mn"
  defines "h \<equiv> (if mx = r then (g - b) / d + (if g < b then 6 else 0)
                   else if mx = g then (b - r) / d + 2
                   else (r - g) / d + 4) / 6"
  assumes ne: "mx \<noteq> mn"
  shows "hue2rgb mn mx (h + 1 / 3) = r \<and> hue2rgb mn mx h = g \<and> hue2rgb mn mx (h - 1 / 3) = b"
proof -
  have d: "0 < d" using ne unfolding d_def mx_def mn_def by auto
  have mxmn: "mx - mn = d" by (simp add: d_def)
  have "mx = r \<or> mx = g \<or> mx = b" unfolding mx_def by (auto simp: max_def)
  then consider (red_up) "mx = r" "b \<le> g" | (red_down) "mx = r" "g < b"
    | (green) "mx \<noteq> r" "mx = g" | (blue) "mx \<noteq> r" "mx \<noteq> g" "mx = b"
    by (cases "b \<le> g"; cases "mx = r"; cases "mx = g") auto
  then show ?thesis
  proof cases
    case red_up
    then have mn: "mn = b" unfolding mn_def mx_def by (auto simp: max_def min_def split: if_splits)
    define x where "x = (g - b) / d"
    have x: "0 \<le> x" "x \<le> 1" using d red_up mn unfolding x_def d_def mx_def
      by (auto simp: field_simps max_def split: if_splits)
    have h: "h = x / 6" using red_up unfolding h_def x_def by simp
    have gx: "mn + (mx - mn) * x = g" unfolding mxmn x_def using d mn by simp
    show ?thesis unfolding h using hue2rgb_red[OF x, of mn mx] red_up mn gx by simp
  next
    case red_down
    then have mn: "mn = g" unfolding mn_def mx_def by (auto simp: max_def min_def split: if_splits)
    define y where "y = (b - g) / d"
    have y: "0 < y" "y \<le> 1" using d red_down mn unfolding y_def d_def mx_def
      by (auto simp: field_simps max_def split: if_splits)
    have h: "h = (6 - y) / 6" using red_down d unfolding h_def y_def by (simp add: field_simps)
    have by': "mn + (mx - mn) * y = b" unfolding mxmn y_def using d mn by simp
    show ?thesis unfolding h using hue2rgb_red_wrap[OF y, of mn mx] red_down mn by' by simp
  next
    case green
    define z where "z = (b - r) / d"
    have z: "- 1 \<le> z" "z \<le> 1" using d green unfolding z_def d_def mx_def mn_def
      by (auto simp: field_simps max_def min_def split: if_splits)
    have h: "h = (z + 2) / 6" using green unfolding h_def z_def by simp
    have neg: "z < 0 \<Longrightarrow> mn = b \<and> mn + (mx - mn) * (- z) = r"
      unfolding mxmn unfolding z_def using d green unfolding mn_def mx_def
      by (auto simp: field_simps max_def min_def split: if_splits)
    have pos: "\<not> z < 0 \<Longrightarrow> mn = r \<and> mn + (mx - mn) * z = b"
      unfolding mxmn unfolding z_def using d green unfolding mn_def mx_def
      by (auto simp: field_simps max_def min_def split: if_splits)
    show ?thesis unfolding h using hue2rgb_green[OF z, of mn mx] green neg pos
      by (cases "z < 0") auto
  next
    case blue
    define w where "w = (r - g) / d"
    have w: "- 1 < w" "w < 1" using d blue unfolding w_def d_def mx_def mn_def
      by (auto simp: field_simps max_def min_def split: if_splits)
    have h: "h = (w + 4) / 6" using blue unfolding h_def w_def by simp
    have neg: "w < 0 \<Longrightarrow> mn = r \<and> mn + (mx - mn) * (- w) = g"
      unfolding mxmn unfolding w_def using d blue unfolding mn_def mx_def
      by (auto simp: field_simps max_def min_def split: if_splits)
    have pos: "\<not> w < 0 \<Longrightarrow> mn = g \<and> mn + (mx - mn) * w = r"
      unfolding mxmn unfolding w_def using d blue unfolding mn_def mx_def
      by (auto simp: field_simps max_def min_def split: if_splits)
    show ?thesis unfolding h using hue2rgb_blue[OF w, of mn mx] blue neg pos
      by (cases "w < 0") auto
  qed
qed


lemma hslToRgb_chromatic:
  assumes "s \<noteq> 0" and "q = (if l < 0.5 then l * (1 + s) else l + s - l * s)"
  shows "hslToRgb (h * 360, s * 100, l * 100)
    = (js_round (hue2rgb (2 * l - q) q (h + 1 / 3) * 255),
       js_round (hue2rgb (2 * l - q) q h * 255),
       js_round (hue2rgb (2 * l - q) q (h - 1 / 3) * 255))"
  using assms by (simp add: hslToRgb_def Let_def)

lemma rgb_roundtrip:
  assumes "0 \<le> r0" "r0 \<le> 255" "0 \<le> g0" "g0 \<le> 255" "0 \<le> b0" "b0 \<le> 255"
  shows "hslToRgb (rgbToHSL (r0, g0, b0)) = (r0, g0, b0)"
proof -
  define r where "r = real_of_int r0 / 255"
  define g where "g = real_of_int g0 / 255"
  define b where "b = real_of_int b0 / 255"
  define mx where "mx = max (max r g) b"
  define mn where "mn = min (min r g) b"
  have rng: "0 \<le> r" "r \<le> 1" "0 \<le> g" "g \<le> 1" "0 \<le> b" "b \<le> 1"
    using assms by (simp_all add: r_def g_def b_def)
  have rr: "js_round (r * 255) = r0" "js_round (g * 255) = g0" "js_round (b * 255) = b0"
    by (simp_all add: r_def g_def b_def js_round_def)
  show ?thesis
  proof (cases "mx = mn")
    case True
    then have "r = mx" "g = mx" "b = mx" unfolding mx_def mn_def by (auto simp: max_def min_def split: if_splits)
    then have l: "(mx + mn) / 2 = r" "(mx + mn) / 2 = g" "(mx + mn) / 2 = b" using True by simp_all
    have "rgbToHSL (r0, g0, b0) = (0, 0, (mx + mn) / 2 * 100)"
      using True unfolding rgbToHSL_def prod.case unfolding Let_def
      unfolding r_def[symmetric] g_def[symmetric] b_def[symmetric]
      unfolding mx_def[symmetric] mn_def[symmetric] by simp
    then show ?thesis using rr l by (simp add: hslToRgb_def mult.commute)
  next
    case False
    define d where "d = mx - mn"
    define l where "l = (mx + mn) / 2"
    define s where "s = (if l > 0.5 then d / (2 - mx - mn) else d / (mx + mn))"
    define h where "h = (if mx = r then (g - b) / d + (if g < b then 6 else 0)
                   else if mx = g then (b - r) / d + 2
                   else (r - g) / d + 4) / 6"
    have mnmx: "0 \<le> mn" "mn < mx" "mx \<le> 1"
      using rng False unfolding mx_def mn_def by (auto simp: max_def min_def split: if_splits)
    have hsl: "rgbToHSL (r0, g0, b0) = (h * 360, s * 100, l * 100)"
      using False unfolding rgbToHSL_def prod.case unfolding Let_def
      unfolding r_def[symmetric] g_def[symmetric] b_def[symmetric]
      unfolding mx_def[symmetric] mn_def[symmetric]
      unfolding d_def[symmetric] l_def[symmetric]
      unfolding s_def[symmetric] h_def[symmetric] by simp
    have s0: "s \<noteq> 0" and q: "(if l < 0.5 then l * (1 + s) else l + s - l * s) = mx"
      using chroma_q[OF mnmx] unfolding s_def l_def d_def by simp_all
    have p: "2 * l - mx = mn" unfolding l_def by (simp add: field_simps)
    have hue: "hue2rgb mn mx (h + 1 / 3) = r \<and> hue2rgb mn mx h = g \<and> hue2rgb mn mx (h - 1 / 3) = b"
      using unit_roundtrip[OF rng] False unfolding mx_def mn_def h_def d_def by simp
    show ?thesis unfolding hsl hslToRgb_chromatic[OF s0 q[symmetric]] p
      using hue rr by simp
  qed
qed

text \<open>
  C9. For RGB channels that are integers from 0 to 255, converting to HSL and back gives
  channels that differ from the input by at most 1. (With numbers read as reals the round
  trip is exact, which is \<open>rgb_roundtrip\<close> above.)
\<close>

theorem rgb_hsl_round_trip:
  assumes "0 \<le> r0" "r0 \<le> 255" "0 \<le> g0" "g0 \<le> 255" "0 \<le> b0" "b0 \<le> 255"
  shows "\<exists>r1 g1 b1. hslToRgb (rgbToHSL (r0, g0, b0)) = (r1, g1, b1)
           \<and> \<bar>r1 - r0\<bar> \<le> 1 \<and> \<bar>g1 - g0\<bar> \<le> 1 \<and> \<bar>b1 - b0\<bar> \<le> 1"
  using rgb_roundtrip[OF assms] by simp

theorem rgb_hsl_round_trip_witness:
  "(0::int) \<le> 51 \<and> (51::int) \<le> 255 \<and> (0::int) \<le> 102 \<and> (102::int) \<le> 255
   \<and> (0::int) \<le> 204 \<and> (204::int) \<le> 255
   \<and> (\<exists>r1 g1 b1. hslToRgb (rgbToHSL (51, 102, 204)) = (r1, g1, b1)
           \<and> \<bar>r1 - 51\<bar> \<le> 1 \<and> \<bar>g1 - 102\<bar> \<le> 1 \<and> \<bar>b1 - 204\<bar> \<le> 1)"
  using rgb_hsl_round_trip[of 51 102 204] by simp

section \<open>The generated scale\<close>

lemma levels_generateColorScale:
  "map level (generateColorScale c) = [100, 200, 300, 400, 500, 600, 700]"
  by (simp add: generateColorScale_def COLOR_LEVELS_def shadeOf_def Let_def)

lemma hsl_shadeOf: "hsl (shadeOf lv c) = c"
  by (simp add: shadeOf_def Let_def)

lemma level_shadeOf: "level (shadeOf lv c) = lv"
  by (simp add: shadeOf_def Let_def)

lemma hue_calculateHSL_neutral: "s < 10 \<Longrightarrow> hue (calculateHSL (h, s, l) lv) = h"
  by (simp add: calculateHSL_def hue_def Let_def split: prod.splits)

text \<open>
  C8. For a base colour with saturation below 10, the scale has its seven records, levels
  100 to 700, and the hue of every one of them is the hue of the base.
\<close>

theorem neutral_hue_kept:
  assumes "s < 10"
  shows "map level (generateColorScale (h, s, l)) = [100, 200, 300, 400, 500, 600, 700]
         \<and> (\<forall>sh\<in>set (generateColorScale (h, s, l)). hue (hsl sh) = h)"
  using assms
  by (simp add: levels_generateColorScale)
     (simp add: generateColorScale_def COLOR_LEVELS_def hsl_shadeOf hue_calculateHSL_neutral)

theorem neutral_hue_kept_witness:
  "(5::real) < 10
   \<and> map level (generateColorScale (30, 5, 50)) = [100, 200, 300, 400, 500, 600, 700]
   \<and> map (\<lambda>sh. hue (hsl sh)) (generateColorScale (30, 5, 50)) = [30, 30, 30, 30, 30, 30, 30]"
proof -
  have s: "(5::real) < 10" by simp
  from neutral_hue_kept[OF s, of 30 50]
  have lv: "map level (generateColorScale (30, 5, 50)) = [100, 200, 300, 400, 500, 600, 700]"
    and hu: "\<forall>sh\<in>set (generateColorScale (30, 5, 50)). hue (hsl sh) = 30"
    by simp_all
  have "length (generateColorScale (30, 5, 50)) = 7"
    by (simp add: generateColorScale_def COLOR_LEVELS_def)
  moreover have "map (\<lambda>sh. hue (hsl sh)) (generateColorScale (30, 5, 50))
      = replicate (length (generateColorScale (30, 5, 50))) 30"
    using hu by (simp add: map_replicate_const[symmetric] cong: map_cong)
  ultimately have "map (\<lambda>sh. hue (hsl sh)) (generateColorScale (30, 5, 50))
      = [30, 30, 30, 30, 30, 30, 30]"
    by (simp add: eval_nat_numeral)
  with s lv show ?thesis by simp
qed

text \<open>
  C7. For a base colour (h, s, l) with saturation from 10 to 100 and lightness from 0 to
  100: level 100 has lightness min(94, l + 44) and saturation max(0, s - 1); level 700 has
  lightness max(24, l - 26) and saturation min(100, s + 28); a level below 400 interpolates
  linearly from the base to the light end with factor (400 - level) / 300, a level above 400
  from the base to the dark end with factor (level - 400) / 300, and the results are clamped
  to the range from 0 to 100. The hue is the hue of the base.
\<close>

theorem calculateHSL_chromatic:
  assumes "10 \<le> s" "s \<le> 100" "0 \<le> l" "l \<le> 100"
  shows "calculateHSL (h, s, l) 100 = (h, max 0 (s - 1), min 94 (l + 44))
       \<and> calculateHSL (h, s, l) 700 = (h, min 100 (s + 28), max 24 (l - 26))
       \<and> (\<forall>lv. lv < 400 \<longrightarrow> calculateHSL (h, s, l) lv =
             (h, max 0 (min 100 (s + (400 - real_of_int lv) / 300 * (max 0 (s - 1) - s))),
                 max 0 (min 100 (l + (400 - real_of_int lv) / 300 * (min 94 (l + 44) - l)))))
       \<and> (\<forall>lv. lv > 400 \<longrightarrow> calculateHSL (h, s, l) lv =
             (h, max 0 (min 100 (s + (real_of_int lv - 400) / 300 * (min 100 (s + 28) - s))),
                 max 0 (min 100 (l + (real_of_int lv - 400) / 300 * (max 24 (l - 26) - l)))))"
proof (intro conjI allI impI)
  have e: "\<And>f a e :: real. a - f * (a - e) = a + f * (e - a)"
    by (simp add: algebra_simps)
  {
  show "calculateHSL (h, s, l) 100 = (h, max 0 (s - 1), min 94 (l + 44))"
    using assms by (simp add: calculateHSL_def Let_def)
  show "calculateHSL (h, s, l) 700 = (h, min 100 (s + 28), max 24 (l - 26))"
    using assms by (simp add: calculateHSL_def Let_def)
next
  fix lv :: int assume "lv < 400"
  then show "calculateHSL (h, s, l) lv =
             (h, max 0 (min 100 (s + (400 - real_of_int lv) / 300 * (max 0 (s - 1) - s))),
                 max 0 (min 100 (l + (400 - real_of_int lv) / 300 * (min 94 (l + 44) - l))))"
    using assms(1) unfolding e[symmetric] by (simp add: calculateHSL_def Let_def)
next
  fix lv :: int assume "lv > 400"
  then show "calculateHSL (h, s, l) lv =
             (h, max 0 (min 100 (s + (real_of_int lv - 400) / 300 * (min 100 (s + 28) - s))),
                 max 0 (min 100 (l + (real_of_int lv - 400) / 300 * (max 24 (l - 26) - l))))"
    using assms(1) unfolding e[where a = l, symmetric] by (simp add: calculateHSL_def Let_def)
  }
qed

theorem calculateHSL_chromatic_witness:
  "(10::real) \<le> 60 \<and> (60::real) \<le> 100 \<and> (0::real) \<le> 50 \<and> (50::real) \<le> 100
   \<and> calculateHSL (220, 60, 50) 100 = (220, 59, 94)
   \<and> calculateHSL (220, 60, 50) 700 = (220, 88, 24)
   \<and> calculateHSL (220, 60, 50) 200 = (220, 60 - 2 / 3, 50 + 2 / 3 * 44)
   \<and> calculateHSL (220, 60, 50) 600 = (220, 60 + 2 / 3 * 28, 50 - 2 / 3 * 26)"
proof -
  have r: "(10::real) \<le> 60" "(60::real) \<le> 100" "(0::real) \<le> 50" "(50::real) \<le> 100"
    by simp_all
  from calculateHSL_chromatic[OF r, of 220]
  have e: "calculateHSL (220, 60, 50) 100 = (220, 59, 94)"
    "calculateHSL (220, 60, 50) 700 = (220, 88, 24)"
    and lo: "\<forall>lv. lv < 400 \<longrightarrow> calculateHSL (220, 60, 50) lv =
             (220, max 0 (min 100 (60 + (400 - real_of_int lv) / 300 * (max 0 (60 - 1) - 60))),
                 max 0 (min 100 (50 + (400 - real_of_int lv) / 300 * (min 94 (50 + 44) - 50))))"
    and hi: "\<forall>lv. lv > 400 \<longrightarrow> calculateHSL (220, 60, 50) lv =
             (220, max 0 (min 100 (60 + (real_of_int lv - 400) / 300 * (min 100 (60 + 28) - 60))),
                 max 0 (min 100 (50 + (real_of_int lv - 400) / 300 * (max 24 (50 - 26) - 50))))"
    by simp_all
  from lo have "calculateHSL (220, 60, 50) 200 = (220, 60 - 2 / 3, 50 + 2 / 3 * 44)"
    by simp
  moreover from hi have "calculateHSL (220, 60, 50) 600 = (220, 60 + 2 / 3 * 28, 50 - 2 / 3 * 26)"
    by simp
  ultimately show ?thesis using e by simp
qed

section \<open>The dark-mode scale\<close>

lemma mapE_all_Inr:
  assumes "\<forall>x\<in>set xs. \<exists>y. f x = Inr y"
  shows "\<exists>ys. mapE f xs = Inr ys \<and> length ys = length xs
           \<and> (\<forall>i<length xs. f (xs ! i) = Inr (ys ! i))"
  using assms
proof (induction xs)
  case Nil
  then show ?case by simp
next
  case (Cons x xs)
  then obtain y where y: "f x = Inr y" by auto
  from Cons obtain ys where ys: "mapE f xs = Inr ys" "length ys = length xs"
    "\<forall>i<length xs. f (xs ! i) = Inr (ys ! i)" by auto
  have "\<forall>i<length (x # xs). f ((x # xs) ! i) = Inr ((y # ys) ! i)"
    using y ys(3) by (auto simp: nth_Cons split: nat.splits)
  then show ?case using y ys by auto
qed

lemma darkShade_400:
  "level color = 400 \<Longrightarrow> find (\<lambda>c. level c = 400) baseScale = Some b
   \<Longrightarrow> darkShade baseScale color = Inr (shadeOf (level color) (hsl b))"
  by (simp add: darkShade_def)

lemma darkShade_paired:
  "level color \<noteq> 400 \<Longrightarrow> levelMap (level color) = Some pv
   \<Longrightarrow> find (\<lambda>c. level c = pv) baseScale = Some p
   \<Longrightarrow> darkShade baseScale color = Inr (shadeOf (level color) (adjustForDarkMode (hsl p)))"
  by (simp add: darkShade_def)

lemma darkShade_total:
  "find (\<lambda>c. level c = 400) baseScale = Some b \<Longrightarrow> \<exists>y. darkShade baseScale color = Inr y"
  by (simp add: darkShade_def Let_def split: option.splits)

lemma darkShade_level: "darkShade baseScale color = Inr y \<Longrightarrow> level y = level color"
  by (auto simp: darkShade_def Let_def level_shadeOf split: if_splits option.splits)

lemma levelMap_pairs:
  "(lv, pv) \<in> {(100, 700), (200, 600), (300, 500), (500, 300), (600, 200), (700, 100)}
   \<Longrightarrow> levelMap lv = Some pv \<and> lv \<noteq> 400"
  by (auto simp: levelMap_def)

lemma adjustForDarkMode_eq:
  "adjustForDarkMode c = (hue c, min (saturation c * 1.1) 100, lightness c)"
  by (simp add: adjustForDarkMode_def hue_def saturation_def lightness_def split: prod.splits)

text \<open>
  C5. When the light scale has a level-400 record (without one the function throws) and the
  basis scale chosen from it has one as well, \<open>generateDarkModeScale\<close> returns a scale
  with one record for each record of the light scale, at the same level. The record at level
  400 has the HSL of the level-400 record of the basis. The record at any other level L has
  the HSL of the basis record at the paired level (100 with 700, 200 with 600, 300 with 500)
  with the saturation multiplied by 1.1 and capped at 100, hue and lightness unchanged.
\<close>

theorem generateDarkModeScale_levels:
  assumes l400: "find (\<lambda>c. level c = 400) light = Some base400"
      and b400: "find (\<lambda>c. level c = 400) (chooseBaseScale base400 light acc) = Some b"
  shows "\<exists>dark. generateDarkModeScale light acc = Inr dark \<and> length dark = length light
      \<and> (\<forall>i<length light.
            level (dark ! i) = level (light ! i)
          \<and> (level (light ! i) = 400 \<longrightarrow> hsl (dark ! i) = hsl b)
          \<and> (\<forall>(lv, pv)\<in>{(100, 700), (200, 600), (300, 500), (500, 300), (600, 200), (700, 100)}.
               \<forall>p. level (light ! i) = lv
                    \<and> find (\<lambda>c. level c = pv) (chooseBaseScale base400 light acc) = Some p
                 \<longrightarrow> hsl (dark ! i)
                       = (hue (hsl p), min (saturation (hsl p) * 1.1) 100, lightness (hsl p))))"
proof -
  define base where "base = chooseBaseScale base400 light acc"
  have "\<forall>x\<in>set light. \<exists>y. darkShade base x = Inr y"
    using darkShade_total[OF b400[folded base_def]] by blast
  from mapE_all_Inr[OF this] obtain dark where dark: "mapE (darkShade base) light = Inr dark"
    "length dark = length light" "\<forall>i<length light. darkShade base (light ! i) = Inr (dark ! i)"
    by blast
  have gen: "generateDarkModeScale light acc = Inr dark"
    using dark(1) l400 by (simp add: generateDarkModeScale_def base_def)
  have each: "level (dark ! i) = level (light ! i)
          \<and> (level (light ! i) = 400 \<longrightarrow> hsl (dark ! i) = hsl b)
          \<and> (\<forall>(lv, pv)\<in>{(100, 700), (200, 600), (300, 500), (500, 300), (600, 200), (700, 100)}.
               \<forall>p. level (light ! i) = lv \<and> find (\<lambda>c. level c = pv) base = Some p
                 \<longrightarrow> hsl (dark ! i)
                       = (hue (hsl p), min (saturation (hsl p) * 1.1) 100, lightness (hsl p)))"
    if i: "i < length light" for i
  proof (intro conjI impI ballI)
    have d: "darkShade base (light ! i) = Inr (dark ! i)" using dark(3) i by blast
    show "level (dark ! i) = level (light ! i)"
      using d by (rule darkShade_level)
    show "hsl (dark ! i) = hsl b" if "level (light ! i) = 400"
    proof -
      have "dark ! i = shadeOf (level (light ! i)) (hsl b)"
        using d darkShade_400[OF that b400[folded base_def]] by simp
      then show ?thesis by (simp add: hsl_shadeOf)
    qed
    show "case x of (lv, pv) \<Rightarrow> \<forall>p. level (light ! i) = lv \<and> find (\<lambda>c. level c = pv) base = Some p
                 \<longrightarrow> hsl (dark ! i)
                       = (hue (hsl p), min (saturation (hsl p) * 1.1) 100, lightness (hsl p))"
      if x: "x \<in> {(100, 700), (200, 600), (300, 500), (500, 300), (600, 200), (700, 100)}" for x
    proof -
      obtain lv pv where xe: "x = (lv, pv)" by (cases x) auto
      have lm: "levelMap lv = Some pv" "lv \<noteq> 400" using levelMap_pairs x xe by blast+
      have "hsl (dark ! i) = (hue (hsl p), min (saturation (hsl p) * 1.1) 100, lightness (hsl p))"
        if "level (light ! i) = lv" "find (\<lambda>c. level c = pv) base = Some p" for p
      proof -
        have "dark ! i = shadeOf (level (light ! i)) (adjustForDarkMode (hsl p))"
          using d darkShade_paired[of "light ! i" pv base p] lm that by simp
        then show ?thesis by (simp add: hsl_shadeOf adjustForDarkMode_eq)
      qed
      then show ?thesis unfolding xe by simp
    qed
  qed
  show ?thesis
    unfolding base_def[symmetric] using gen dark(2) each by blast
qed

lemma find_generateColorScale:
  "find (\<lambda>c. level c = 400) (generateColorScale c0) = Some (shadeOf 400 c0)"
  by (simp add: generateColorScale_def COLOR_LEVELS_def level_shadeOf calculateHSL_def
      split: prod.splits)

lemma gray46_basis:
  "chooseBaseScale (shadeOf 400 (0, 0, 46)) (generateColorScale (0, 0, 46)) None
     = generateColorScale (0, 0, 46)"
  using passes_gray46
  by (simp add: chooseBaseScale_def shadeOf_def Let_def passesBoth_def)

theorem generateDarkModeScale_levels_witness:
  "find (\<lambda>c. level c = 400) (generateColorScale (0, 0, 46)) = Some (shadeOf 400 (0, 0, 46))
   \<and> find (\<lambda>c. level c = 400)
        (chooseBaseScale (shadeOf 400 (0, 0, 46)) (generateColorScale (0, 0, 46)) None)
      = Some (shadeOf 400 (0, 0, 46))
   \<and> (\<exists>dark. generateDarkModeScale (generateColorScale (0, 0, 46)) None = Inr dark
        \<and> length dark = 7
        \<and> (\<forall>i<7. level (dark ! i) = level (generateColorScale (0, 0, 46) ! i)
              \<and> (level (generateColorScale (0, 0, 46) ! i) = 400 \<longrightarrow> hsl (dark ! i) = (0, 0, 46))))"
proof -
  have a: "find (\<lambda>c. level c = 400) (generateColorScale (0, 0, 46)) = Some (shadeOf 400 (0, 0, 46))"
    by (rule find_generateColorScale)
  have b: "find (\<lambda>c. level c = 400)
        (chooseBaseScale (shadeOf 400 (0, 0, 46)) (generateColorScale (0, 0, 46)) None)
      = Some (shadeOf 400 (0, 0, 46))"
    unfolding gray46_basis by (rule find_generateColorScale)
  have len: "length (generateColorScale (0, 0, 46)) = 7"
    by (simp add: generateColorScale_def COLOR_LEVELS_def)
  show ?thesis
    using a b generateDarkModeScale_levels[OF a b] unfolding len
    by (simp add: hsl_shadeOf) blast
qed

section \<open>Hex strings\<close>

lemma hexDigit_not_special:
  assumes "isHexDigit ch"
  shows "\<not> isWhiteSpace ch" "ch \<noteq> CHR ''-''" "ch \<noteq> CHR ''+''" "ch \<noteq> CHR ''x''"
    "ch \<noteq> CHR ''X''" "ch \<noteq> CHR ''#''"
  using assms unfolding isHexDigit_def by (auto simp: isWhiteSpace_def)


lemma hexValue_range:
  assumes "isHexDigit ch"
  shows "0 \<le> hexValue ch \<and> hexValue ch \<le> 15"
  using assms unfolding isHexDigit_def by (auto simp: hexValue_def)


lemma hexDigit_hexValue:
  assumes "isHexDigit ch"
  shows "[hexDigit (nat (hexValue ch))] = toLowerCase [ch]"
  using assms unfolding isHexDigit_def list.set insert_iff empty_iff
  by (elim disjE FalseE; hypsubst; simp add: hexValue_def hexDigit_def toLowerCase_def)


lemma parseInt16_pair:
  assumes "isHexDigit a" "isHexDigit b"
  shows "parseInt16 [a, b] = Some (16 * hexValue a + hexValue b)"
  using hexDigit_not_special[OF assms(1)] hexDigit_not_special[OF assms(2)] assms
  by (simp add: parseInt16_def Let_def)

lemma hexToRgb_six:
  assumes "list_all isHexDigit [a, b, c, d, e, f]"
  shows "hexToRgb [a, b, c, d, e, f]
           = Some (16 * hexValue a + hexValue b, 16 * hexValue c + hexValue d,
                   16 * hexValue e + hexValue f)"
  using assms hexDigit_not_special(6)[of a]
  by (simp add: hexToRgb_def Let_def parseInt16_pair)

lemma hexToRgb_hash:
  assumes "isHexDigit a"
  shows "hexToRgb (CHR ''#'' # a # ds) = hexToRgb (a # ds)"
  using hexDigit_not_special(6)[OF assms] by (simp add: hexToRgb_def)

lemma hexToRgb_three:
  assumes "isHexDigit a" "isHexDigit b" "isHexDigit c"
  shows "hexToRgb [a, b, c] = Some (17 * hexValue a, 17 * hexValue b, 17 * hexValue c)"
    and "hexToRgb [a, a, b, b, c, c] = Some (17 * hexValue a, 17 * hexValue b, 17 * hexValue c)"
  using assms hexDigit_not_special(6)[of a]
  by (simp_all add: hexToRgb_def Let_def parseInt16_pair)

lemma length_three: "length ds = 3 \<longleftrightarrow> (\<exists>a b c. ds = [a, b, c])"
  by (auto simp: length_Suc_conv eval_nat_numeral)

lemma length_six: "length ds = 6 \<longleftrightarrow> (\<exists>a b c d e f. ds = [a, b, c, d, e, f])"
  by (auto simp: length_Suc_conv eval_nat_numeral)

lemma dropWhile_rev_last:
  "xs \<noteq> [] \<Longrightarrow> \<not> P (last xs) \<Longrightarrow> dropWhile P (rev xs) = rev xs"
  by (cases xs rule: rev_cases) auto

lemma trim_digits:
  assumes "\<not> isWhiteSpace a" "\<not> isWhiteSpace (last (a # ds))"
  shows "trim (a # ds) = a # ds"
proof -
  have "dropWhile isWhiteSpace (rev (a # ds)) = rev (a # ds)"
    using assms(2) by (intro dropWhile_rev_last) simp_all
  moreover have "dropWhile isWhiteSpace (a # ds) = a # ds" using assms(1) by simp
  ultimately show ?thesis unfolding trim_def by (simp only: rev_rev_ident)
qed

lemma toHex_byte:
  assumes "0 \<le> x" "x \<le> 15" "0 \<le> y" "y \<le> 15"
  shows "toHex (16 * x + y) = [hexDigit (nat x), hexDigit (nat y)]"
proof (cases "x = 0")
  case True
  have "nat y < 16" using assms by simp
  then have "digits16 (nat y) = [hexDigit (nat y)]" by (subst digits16.simps) simp
  then show ?thesis using True assms
    by (simp add: toHex_def toString16_def hexDigit_def)
next
  case False
  have n: "nat (16 * x + y) = 16 * nat x + nat y" using assms by simp
  have big: "\<not> 16 * nat x + nat y < 16" using False assms by simp
  have dm: "(16 * nat x + nat y) div 16 = nat x" "(16 * nat x + nat y) mod 16 = nat y"
    using assms by simp_all
  have "digits16 (16 * nat x + nat y) = digits16 (nat x) @ [hexDigit (nat y)]"
    by (subst digits16.simps) (simp only: big dm if_False)
  also have "digits16 (nat x) = [hexDigit (nat x)]"
  proof -
    have "nat x < 16" using assms by simp
    then show ?thesis by (subst digits16.simps) simp
  qed
  finally show ?thesis using assms n by (simp add: toHex_def toString16_def)
qed

lemma toHex_pair:
  assumes "isHexDigit a" "isHexDigit b"
  shows "toHex (16 * hexValue a + hexValue b) = toLowerCase [a, b]"
proof -
  have "toLowerCase [a, b] = toLowerCase [a] @ toLowerCase [b]"
    by (simp add: toLowerCase_def)
  then show ?thesis
    using toHex_byte[of "hexValue a" "hexValue b"] hexValue_range[OF assms(1)]
      hexValue_range[OF assms(2)] hexDigit_hexValue[OF assms(1)] hexDigit_hexValue[OF assms(2)]
    by simp
qed

lemma hslToHex_rgbToHSL:
  assumes "0 \<le> r0" "r0 \<le> 255" "0 \<le> g0" "g0 \<le> 255" "0 \<le> b0" "b0 \<le> 255"
  shows "hslToHex (rgbToHSL (r0, g0, b0)) = ''#'' @ toHex r0 @ toHex g0 @ toHex b0"
  by (simp add: hslToHex_def rgb_roundtrip[OF assms])

lemma byte_range:
  assumes "isHexDigit a" "isHexDigit b"
  shows "0 \<le> 16 * hexValue a + hexValue b" "16 * hexValue a + hexValue b \<le> 255"
  using hexValue_range[OF assms(1)] hexValue_range[OF assms(2)] by auto

lemma hex_round_trip:
  assumes "list_all isHexDigit [a, b, c, d, e, f]"
  shows "\<exists>c0. hexToHSL [a, b, c, d, e, f] = Some c0
           \<and> hslToHex c0 = CHR ''#'' # toLowerCase [a, b, c, d, e, f]"
proof -
  from assms have dg: "isHexDigit a" "isHexDigit b" "isHexDigit c" "isHexDigit d"
    "isHexDigit e" "isHexDigit f" by simp_all
  let ?r = "16 * hexValue a + hexValue b"
  let ?g = "16 * hexValue c + hexValue d"
  let ?b = "16 * hexValue e + hexValue f"
  have h: "hexToHSL [a, b, c, d, e, f] = Some (rgbToHSL (?r, ?g, ?b))"
    by (simp add: hexToHSL_def hexToRgb_six[OF assms])
  have "hslToHex (rgbToHSL (?r, ?g, ?b)) = ''#'' @ toHex ?r @ toHex ?g @ toHex ?b"
    by (intro hslToHex_rgbToHSL byte_range dg)
  also have "\<dots> = CHR ''#'' # toLowerCase [a, b] @ toLowerCase [c, d] @ toLowerCase [e, f]"
    by (simp add: toHex_pair dg)
  also have "\<dots> = CHR ''#'' # toLowerCase [a, b, c, d, e, f]"
    by (simp add: toLowerCase_def)
  finally show ?thesis using h by simp
qed

lemma hex_shadeOf: "hex (shadeOf lv c) = hslToHex c"
  by (simp add: shadeOf_def Let_def)

lemma isValidHex_iff:
  "isValidHex color \<longleftrightarrow>
     (\<exists>ds. color = CHR ''#'' # ds \<and> (length ds = 3 \<or> length ds = 6) \<and> list_all isHexDigit ds)"
  by (cases color) (auto simp: isValidHex_def)

lemma not_white_hash: "\<not> isWhiteSpace CHR ''#''"
  by (simp add: isWhiteSpace_def)

lemma normalizeHex_valid:
  assumes "list_all isHexDigit ds" "ds \<noteq> []"
  shows "normalizeHex (CHR ''#'' # ds) = CHR ''#'' # ds"
    and "normalizeHex ds = CHR ''#'' # ds"
proof -
  have l: "\<not> isWhiteSpace (last ds)"
    using assms hexDigit_not_special(1)[of "last ds"] by (simp add: list_all_iff)
  have "trim (CHR ''#'' # ds) = CHR ''#'' # ds"
    using l assms(2) not_white_hash by (intro trim_digits) simp_all
  then show "normalizeHex (CHR ''#'' # ds) = CHR ''#'' # ds"
    by (simp add: normalizeHex_def)
  obtain a ds' where ds: "ds = a # ds'" using assms(2) by (cases ds) auto
  have a: "isHexDigit a" using assms(1) ds by simp
  have "trim (a # ds') = a # ds'"
    using l hexDigit_not_special(1)[OF a] unfolding ds by (intro trim_digits)
  then show "normalizeHex ds = CHR ''#'' # ds"
    using hexDigit_not_special(6)[OF a] by (simp add: normalizeHex_def ds)
qed

lemma hexToRgb_digits:
  assumes "list_all isHexDigit ds" "length ds = 3 \<or> length ds = 6"
  shows "hexToRgb (CHR ''#'' # ds) = hexToRgb ds" and "hexToRgb ds \<noteq> None"
proof -
  from assms(2) obtain a ds' where ds: "ds = a # ds'" by (cases ds) auto
  then have a: "isHexDigit a" using assms(1) by simp
  show "hexToRgb (CHR ''#'' # ds) = hexToRgb ds" unfolding ds by (rule hexToRgb_hash[OF a])
  show "hexToRgb ds \<noteq> None"
    using assms(2)
  proof
    assume "length ds = 3"
    then obtain a b c where "ds = [a, b, c]" unfolding length_three by blast
    then show ?thesis using hexToRgb_three(1)[of a b c] assms(1) by simp
  next
    assume "length ds = 6"
    then obtain a b c d e f where "ds = [a, b, c, d, e, f]" unfolding length_six by blast
    then show ?thesis using hexToRgb_six[of a b c d e f] assms(1) by simp
  qed
qed

text \<open>
  C4. \<open>isValidHex\<close> accepts exactly the strings made of \<open>#\<close> and 3 or 6 hex
  digits. The digits alone, without the \<open>#\<close>, are rejected; \<open>normalizeHex\<close> puts the
  \<open>#\<close> in front, and the result is accepted. \<open>hexToRgb\<close> reads both forms, with and
  without \<open>#\<close>, to the same channels, and a 3-digit form as the 6-digit form with each
  digit doubled.
\<close>

theorem isValidHex_hexToRgb:
  "(isValidHex color \<longleftrightarrow>
      (\<exists>ds. color = CHR ''#'' # ds \<and> (length ds = 3 \<or> length ds = 6) \<and> list_all isHexDigit ds))
   \<and> (list_all isHexDigit ds \<and> (length ds = 3 \<or> length ds = 6) \<longrightarrow>
         \<not> isValidHex ds \<and> normalizeHex ds = CHR ''#'' # ds \<and> isValidHex (normalizeHex ds)
         \<and> hexToRgb (CHR ''#'' # ds) = hexToRgb ds \<and> hexToRgb ds \<noteq> None)
   \<and> (isHexDigit a \<and> isHexDigit b \<and> isHexDigit c \<longrightarrow>
         hexToRgb [a, b, c] = hexToRgb [a, a, b, b, c, c]
         \<and> hexToRgb (CHR ''#'' # [a, b, c]) = hexToRgb [a, a, b, b, c, c]
         \<and> hexToRgb [a, a, b, b, c, c]
             = Some (17 * hexValue a, 17 * hexValue b, 17 * hexValue c))"
proof (intro conjI impI)
  show "isValidHex color \<longleftrightarrow>
      (\<exists>ds. color = CHR ''#'' # ds \<and> (length ds = 3 \<or> length ds = 6) \<and> list_all isHexDigit ds)"
    by (rule isValidHex_iff)
next
  assume h: "list_all isHexDigit ds \<and> (length ds = 3 \<or> length ds = 6)"
  then have ne: "ds \<noteq> []" by auto
  then obtain x ds' where ds: "ds = x # ds'" by (cases ds) auto
  have "x \<noteq> CHR ''#''" using h ds hexDigit_not_special(6)[of x] by simp
  then show "\<not> isValidHex ds" by (simp add: isValidHex_def ds)
  show n: "normalizeHex ds = CHR ''#'' # ds" using h ne normalizeHex_valid(2) by blast
  show "isValidHex (normalizeHex ds)" unfolding n isValidHex_iff using h by blast
  show "hexToRgb (CHR ''#'' # ds) = hexToRgb ds" using h hexToRgb_digits(1) by blast
  show "hexToRgb ds \<noteq> None" using h hexToRgb_digits(2) by blast
next
  assume h: "isHexDigit a \<and> isHexDigit b \<and> isHexDigit c"
  show "hexToRgb [a, b, c] = hexToRgb [a, a, b, b, c, c]"
    using h hexToRgb_three[of a b c] by simp
  show "hexToRgb (CHR ''#'' # [a, b, c]) = hexToRgb [a, a, b, b, c, c]"
    using h hexToRgb_three[of a b c] hexToRgb_hash[of a "[b, c]"] by simp
  show "hexToRgb [a, a, b, b, c, c] = Some (17 * hexValue a, 17 * hexValue b, 17 * hexValue c)"
    using h hexToRgb_three(2)[of a b c] by simp
qed

theorem isValidHex_hexToRgb_witness:
  "isValidHex ''#1aF''
   \<and> list_all isHexDigit ''1aF'' \<and> length ''1aF'' = 3
   \<and> \<not> isValidHex ''1aF'' \<and> normalizeHex ''1aF'' = ''#1aF'' \<and> isValidHex (normalizeHex ''1aF'')
   \<and> isHexDigit CHR ''1'' \<and> isHexDigit CHR ''a'' \<and> isHexDigit CHR ''F''
   \<and> hexToRgb ''1aF'' = hexToRgb ''11aaFF''
   \<and> hexToRgb ''#1aF'' = hexToRgb ''11aaFF''
   \<and> hexToRgb ''11aaFF'' = Some (17, 170, 255)"
proof -
  have d: "isHexDigit CHR ''1''" "isHexDigit CHR ''a''" "isHexDigit CHR ''F''"
    by (simp_all add: isHexDigit_def)
  have v: "hexValue CHR ''1'' = 1" "hexValue CHR ''a'' = 10" "hexValue CHR ''F'' = 15"
    by (simp_all add: hexValue_def)
  show ?thesis
    using isValidHex_hexToRgb[of "''#1aF''" "''1aF''" "CHR ''1''" "CHR ''a''" "CHR ''F''"] d v
    by simp
qed

text \<open>
  C4, the form without \<open>#\<close>: a string of 3 hex digits and no \<open>#\<close> in front is
  rejected by \<open>isValidHex\<close>.
\<close>

theorem isValidHex_without_hash_counterexample:
  "length ''abc'' = 3 \<and> list_all isHexDigit ''abc'' \<and> \<not> isValidHex ''abc''"
  by (simp add: isValidHex_def isHexDigit_def)

text \<open>
  C3. For a valid hex string of \<open>#\<close> and 6 digits, \<open>hexToHSL\<close> has a value,
  the scale generated from it has a level-400 record, and the hex field of that record is the
  normalized input (which is the input itself) with its letters in lower case.
\<close>

theorem level400_hex:
  assumes "isValidHex hex0" "length hex0 = 7"
  shows "\<exists>c0 sh. hexToHSL hex0 = Some c0
           \<and> find (\<lambda>r. level r = 400) (generateColorScale c0) = Some sh
           \<and> normalizeHex hex0 = hex0
           \<and> hex sh = toLowerCase (normalizeHex hex0)"
proof -
  from assms obtain ds where ds: "hex0 = CHR ''#'' # ds" "length ds = 6" "list_all isHexDigit ds"
    unfolding isValidHex_iff by auto
  from ds(2) obtain a b c d e f where l: "ds = [a, b, c, d, e, f]" unfolding length_six by blast
  have all: "list_all isHexDigit [a, b, c, d, e, f]" using ds(3) l by simp
  from hex_round_trip[OF all] obtain c0 where c0: "hexToHSL [a, b, c, d, e, f] = Some c0"
    "hslToHex c0 = CHR ''#'' # toLowerCase [a, b, c, d, e, f]" by blast
  have "hexToRgb hex0 = hexToRgb ds"
    unfolding ds(1) using hexToRgb_digits(1)[OF ds(3)] ds(2) by simp
  then have h: "hexToHSL hex0 = Some c0" using c0(1) l by (simp add: hexToHSL_def)
  have n: "normalizeHex hex0 = hex0"
    unfolding ds(1) using normalizeHex_valid(1)[OF ds(3)] l by simp
  have lc: "toLowerCase hex0 = CHR ''#'' # toLowerCase ds"
    unfolding ds(1) by (simp add: toLowerCase_def)
  show ?thesis
    using h find_generateColorScale[of c0] n c0(2) lc l
    by (intro exI[of _ c0] exI[of _ "shadeOf 400 c0"]) (simp add: hex_shadeOf)
qed

theorem level400_hex_witness:
  "isValidHex ''#3366cc'' \<and> length ''#3366cc'' = 7
   \<and> (\<exists>c0 sh. hexToHSL ''#3366cc'' = Some c0
           \<and> find (\<lambda>r. level r = 400) (generateColorScale c0) = Some sh
           \<and> normalizeHex ''#3366cc'' = ''#3366cc''
           \<and> hex sh = toLowerCase (normalizeHex ''#3366cc''))"
proof -
  have v: "isValidHex ''#3366cc''" by (simp add: isValidHex_def isHexDigit_def)
  have l: "length ''#3366cc'' = 7" by simp
  show ?thesis using v l level400_hex[OF v l] by blast
qed

text \<open>
  C3, upper-case input: for \<open>#3366CC\<close> the hex field of the level-400 record is
  \<open>#3366cc\<close>, in lower case, while \<open>normalizeHex\<close> leaves the case of the input as
  it is; the two strings differ.
\<close>

lemma hexToHSL_3366CC: "hexToHSL ''#3366CC'' = Some (220, 60, 50)"
proof -
  have d: "list_all isHexDigit ''3366CC''" by (simp add: isHexDigit_def)
  have "hexToRgb ''#3366CC'' = hexToRgb ''3366CC''"
    by (rule hexToRgb_digits(1)[OF d]) simp
  also have "\<dots> = Some (51, 102, 204)"
    using hexToRgb_six[OF d] by (simp add: hexValue_def)
  finally have "hexToHSL ''#3366CC'' = Some (rgbToHSL (51, 102, 204))"
    by (simp add: hexToHSL_def)
  moreover have "rgbToHSL (51, 102, 204) = (220, 60, 50)"
    by (simp add: rgbToHSL_def Let_def)
  ultimately show ?thesis by simp
qed

lemma hslToHex_3366CC: "hslToHex (220, 60, 50) = ''#3366cc''"
proof -
  have d: "list_all isHexDigit ''3366CC''" by (simp add: isHexDigit_def)
  have "hexToHSL ''3366CC'' = Some (220, 60, 50)"
    using hexToHSL_3366CC hexToRgb_digits(1)[OF d] by (simp add: hexToHSL_def)
  with hex_round_trip[OF d] show ?thesis by (simp add: toLowerCase_def)
qed

theorem level400_hex_uppercase_counterexample:
  "isValidHex ''#3366CC'' \<and> length ''#3366CC'' = 7
   \<and> hexToHSL ''#3366CC'' = Some (220, 60, 50)
   \<and> level (generateColorScale (220, 60, 50) ! 3) = 400
   \<and> hex (generateColorScale (220, 60, 50) ! 3) = ''#3366cc''
   \<and> normalizeHex ''#3366CC'' = ''#3366CC''
   \<and> hex (generateColorScale (220, 60, 50) ! 3) \<noteq> normalizeHex ''#3366CC''"
proof -
  have d: "list_all isHexDigit ''3366CC''" by (simp add: isHexDigit_def)
  have n: "normalizeHex ''#3366CC'' = ''#3366CC''"
    by (rule normalizeHex_valid(1)[OF d]) simp
  have g: "generateColorScale (220, 60, 50) ! 3 = shadeOf 400 (220, 60, 50)"
    by (simp add: generateColorScale_def COLOR_LEVELS_def calculateHSL_def)
  show ?thesis
    unfolding g n
    by (simp add: hexToHSL_3366CC hex_shadeOf level_shadeOf hslToHex_3366CC
        isValidHex_def isHexDigit_def)
qed

end
